theory Spec2Isabelle
  imports Main
begin

section \<open>Emitters, errors and channels\<close>

text \<open>
  The Go package \<^verbatim>\<open>eventstream\<close> declares \<^verbatim>\<open>type EventStream chan bases.Emitter\<close>.
  \<^verbatim>\<open>bases.Emitter\<close> is an interface: a value of that type is either \<^verbatim>\<open>nil\<close> or an
  envelope that carries one value or one error. The envelope is the datatype
  \<open>emitter\<close>; an interface value is an \<open>emitter option\<close>, with \<open>None\<close> for \<^verbatim>\<open>nil\<close>.
  A Go \<^verbatim>\<open>error\<close> result is an \<open>error option\<close> in the same way.
\<close>

datatype error = EndOfIteratorError | InvalidObserverError | Upstream string

datatype 'v emitter = Item 'v | Fault error

text \<open>What one call of \<^verbatim>\<open>Next() (bases.Emitter, error)\<close> returns.\<close>

type_synonym 'v pull = "'v emitter option \<times> error option"

text \<open>
  A Go channel: the buffered elements in arrival order, the capacity chosen by
  \<^verbatim>\<open>make\<close>, and whether \<^verbatim>\<open>close\<close> was called.
\<close>

record 'a chan =
  buf :: "'a list"
  cap :: nat
  closed :: bool

definition make_chan :: "nat \<Rightarrow> 'a chan" where
  "make_chan n = \<lparr>buf = [], cap = n, closed = False\<rparr>"

text \<open>
  \<^verbatim>\<open>ch <- x\<close>: panics on a closed channel, stores \<open>x\<close> when the buffer has room,
  and blocks otherwise (on an unbuffered channel until a receiver takes \<open>x\<close>, see \<open>recv\<close>).
\<close>

datatype 'a sent = Sent "'a chan" | WouldBlock | SendPanic

definition chan_send :: "'a \<Rightarrow> 'a chan \<Rightarrow> 'a sent" where
  "chan_send x ch =
     (if closed ch then SendPanic
      else if length (buf ch) < cap ch then Sent (ch\<lparr>buf := buf ch @ [x]\<rparr>)
      else WouldBlock)"

text \<open>\<^verbatim>\<open>close(ch)\<close>: panics (\<open>None\<close>) on a channel that is closed already.\<close>

definition chan_close :: "'a chan \<Rightarrow> 'a chan option" where
  "chan_close ch = (if closed ch then None else Some (ch\<lparr>closed := True\<rparr>))"

section \<open>The producer goroutines of New and From\<close>

text \<open>
  The goroutine that \<^verbatim>\<open>New\<close> or \<^verbatim>\<open>From\<close> starts is a small program; its state is the
  place it has reached together with the variables its closure captured.
  \<^item> \<open>NotSpawned\<close>: \<^verbatim>\<open>New\<close> was called with no emitter, the \<^verbatim>\<open>go\<close> statement was skipped.
  \<^item> \<open>Pushing es\<close>: inside \<^verbatim>\<open>for _, emitter := range emitters\<close>, with \<open>es\<close> still to send;
    \<open>Pushing []\<close> stands before \<^verbatim>\<open>close(es)\<close>.
  \<^item> \<open>Pulling it k\<close>: \<^verbatim>\<open>From\<close>'s loop before its \<open>k\<close>-th call of \<^verbatim>\<open>iter.Next()\<close>.
    The iterator is an external collaborator; \<open>it k\<close> is what its \<open>k\<close>-th call returns.
  \<^item> \<open>Handing e it k\<close>: \<^verbatim>\<open>From\<close>'s loop at \<^verbatim>\<open>es <- emitter\<close>, \<open>k\<close> the next pull.
  \<^item> \<open>Closing\<close>: \<^verbatim>\<open>From\<close> after \<^verbatim>\<open>break\<close>, before \<^verbatim>\<open>close(es)\<close>.
  \<^item> \<open>Finished\<close>: the goroutine returned.  \<open>Panicked\<close>: a channel operation panicked.
\<close>

datatype 'v task =
    NotSpawned
  | Pushing "'v emitter option list"
  | Pulling "nat \<Rightarrow> 'v pull" nat
  | Handing "'v emitter option" "nat \<Rightarrow> 'v pull" nat
  | Closing
  | Finished
  | Panicked

text \<open>
  An event stream with its producer: the goroutine, the channel, and what
  \<^verbatim>\<open>fmt.Println(emitter, err)\<close> in \<^verbatim>\<open>From\<close> has written so far.
\<close>

record 'v pipe =
  task :: "'v task"
  stream :: "'v emitter option chan"
  stdout :: "'v pull list"

definition New :: "'v emitter option list \<Rightarrow> 'v pipe" where
  "New emitters =
     \<lparr>task = (if length emitters > 0 then Pushing emitters else NotSpawned),
      stream = make_chan (length emitters),
      stdout = []\<rparr>"

definition From :: "(nat \<Rightarrow> 'v pull) \<Rightarrow> 'v pipe" where
  "From iter = \<lparr>task = Pulling iter 0, stream = make_chan 0, stdout = []\<rparr>"

text \<open>The producer, sending \<open>e\<close> and going on as \<open>t'\<close> once the send is through.\<close>

definition send_then :: "'v emitter option \<Rightarrow> 'v task \<Rightarrow> 'v pipe \<Rightarrow> 'v pipe" where
  "send_then e t' p =
     (case chan_send e (stream p) of
        Sent ch \<Rightarrow> p\<lparr>task := t', stream := ch\<rparr>
      | WouldBlock \<Rightarrow> p
      | SendPanic \<Rightarrow> p\<lparr>task := Panicked\<rparr>)"

definition close_then :: "'v pipe \<Rightarrow> 'v pipe" where
  "close_then p =
     (case chan_close (stream p) of
        Some ch \<Rightarrow> p\<lparr>task := Finished, stream := ch\<rparr>
      | None \<Rightarrow> p\<lparr>task := Panicked\<rparr>)"

text \<open>One scheduling slot given to the producer goroutine.\<close>

fun advance :: "'v pipe \<Rightarrow> 'v pipe" where
  "advance p =
     (case task p of
        NotSpawned \<Rightarrow> p
      | Pushing [] \<Rightarrow> close_then p
      | Pushing (e # es) \<Rightarrow> send_then e (Pushing es) p
      | Pulling iter k \<Rightarrow>
          (case iter k of
             (emitter, err) \<Rightarrow>
               p\<lparr>task := (if err \<noteq> None then Closing else Handing emitter iter (Suc k)),
                 stdout := stdout p @ [(emitter, err)]\<rparr>)
      | Handing e iter k \<Rightarrow> send_then e (Pulling iter k) p
      | Closing \<Rightarrow> close_then p
      | Finished \<Rightarrow> p
      | Panicked \<Rightarrow> p)"

section \<open>Receiving: EventStream.Next\<close>

text \<open>The value a producer blocked in a send is offering, and how it goes on.\<close>

fun offer :: "'v task \<Rightarrow> ('v emitter option \<times> 'v task) option" where
  "offer (Pushing (e # es)) = Some (e, Pushing es)"
| "offer (Handing e iter k) = Some (e, Pulling iter k)"
| "offer _ = None"

text \<open>
  \<^verbatim>\<open>emitter, ok := <-evs\<close>. A buffered element is taken first; on an empty closed
  channel the receive yields the zero value and \<open>ok = False\<close>; on an empty unbuffered
  channel it takes the value of a sender that waits in its send; otherwise it
  blocks, which is the result \<open>None\<close>.
\<close>

definition recv :: "'v pipe \<Rightarrow> (('v emitter option \<times> bool) \<times> 'v pipe) option" where
  "recv p =
     (case buf (stream p) of
        x # xs \<Rightarrow> Some ((x, True), p\<lparr>stream := (stream p)\<lparr>buf := xs\<rparr>\<rparr>)
      | [] \<Rightarrow>
          if closed (stream p) then Some ((None, False), p)
          else if cap (stream p) = 0 then
            (case offer (task p) of
               Some (e, t') \<Rightarrow> Some ((e, True), p\<lparr>task := t'\<rparr>)
             | None \<Rightarrow> None)
          else None)"

definition Next :: "'v pipe \<Rightarrow> ('v pull \<times> 'v pipe) option" where
  "Next p =
     (case recv p of
        None \<Rightarrow> None
      | Some ((emitter, ok), p') \<Rightarrow>
          if ok then Some ((emitter, None), p')
          else Some ((None, Some EndOfIteratorError), p'))"

section \<open>A producer and a pulling caller, interleaved\<close>

text \<open>
  The caller of \<^verbatim>\<open>Next\<close> and the producer goroutine run concurrently. A schedule
  is the order in which the two get their turns; a turn of a blocked party
  changes nothing. \<open>pulls\<close> lists what the caller's calls of \<^verbatim>\<open>Next\<close> returned.
\<close>

datatype actor = Producer | Consumer

record 'v session =
  pipe :: "'v pipe"
  pulls :: "'v pull list"

definition start :: "'v pipe \<Rightarrow> 'v session" where
  "start p = \<lparr>pipe = p, pulls = []\<rparr>"

fun step :: "actor \<Rightarrow> 'v session \<Rightarrow> 'v session" where
  "step Producer s = s\<lparr>pipe := advance (pipe s)\<rparr>"
| "step Consumer s =
     (case Next (pipe s) of
        None \<Rightarrow> s
      | Some (r, p') \<Rightarrow> \<lparr>pipe = p', pulls = pulls s @ [r]\<rparr>)"

fun run :: "actor list \<Rightarrow> 'v session \<Rightarrow> 'v session" where
  "run [] s = s"
| "run (a # as) s = run as (step a s)"

text \<open>What a caller sees for an emitter that arrived, and at the end of the stream.\<close>

definition delivered :: "'v emitter option list \<Rightarrow> 'v pull list" where
  "delivered es = map (\<lambda>e. (e, None)) es"

definition exhausted :: "'v pull" where
  "exhausted = (None, Some EndOfIteratorError)"

text \<open>\<open>rounds n\<close>: the producer and the caller take turns, \<open>n\<close> times.\<close>

fun rounds :: "nat \<Rightarrow> actor list" where
  "rounds 0 = []"
| "rounds (Suc n) = Producer # Consumer # rounds n"

section \<open>Invariants of a run\<close>

text \<open>
  What holds of every state that a producer pushing the list \<open>es\<close> and a pulling caller
  can reach: the emitters pulled so far, those in the buffer and those still to
  send make up \<open>es\<close>, in this order; the end of the stream is seen only after the
  close, and only once the buffer is empty.
\<close>

definition push_inv :: "'v emitter option list \<Rightarrow> 'v session \<Rightarrow> bool" where
  "push_inv es s \<longleftrightarrow>
     (\<exists>pre.
        (\<exists>rest. task (pipe s) = Pushing rest \<and> \<not> closed (stream (pipe s))
            \<and> pulls s = delivered pre \<and> es = pre @ buf (stream (pipe s)) @ rest)
      \<or> (task (pipe s) = Finished \<and> closed (stream (pipe s))
            \<and> es = pre @ buf (stream (pipe s))
            \<and> (\<exists>k. pulls s = delivered pre @ replicate k exhausted
                  \<and> (0 < k \<longrightarrow> buf (stream (pipe s)) = []))))"

text \<open>The channel operations a pushing producer still has to do.\<close>

fun todo :: "'v task \<Rightarrow> nat" where
  "todo (Pushing r) = Suc (length r)"
| "todo _ = 0"

text \<open>
  The emitters that the first \<open>i\<close> calls of the iterator returned, and what holds of
  every state that \<^verbatim>\<open>From\<close>'s producer and a pulling caller can reach: the channel
  buffer is empty, the producer stands at its \<open>i\<close>-th pull or send with all earlier
  pulls successful, and the caller has received just the emitters of those
  earlier pulls.
\<close>

definition fetched :: "(nat \<Rightarrow> 'v pull) \<Rightarrow> nat \<Rightarrow> 'v emitter option list" where
  "fetched iter i = map (\<lambda>j. fst (iter j)) [0..<i]"

definition from_inv :: "(nat \<Rightarrow> 'v pull) \<Rightarrow> 'v session \<Rightarrow> bool" where
  "from_inv iter s \<longleftrightarrow>
     buf (stream (pipe s)) = [] \<and> cap (stream (pipe s)) = 0 \<and>
     (\<exists>i. (\<forall>j<i. snd (iter j) = None) \<and>
        ((task (pipe s) = Pulling iter i \<and> \<not> closed (stream (pipe s))
            \<and> stdout (pipe s) = map iter [0..<i]
            \<and> pulls s = delivered (fetched iter i))
       \<or> (task (pipe s) = Handing (fst (iter i)) iter (Suc i) \<and> snd (iter i) = None
            \<and> \<not> closed (stream (pipe s))
            \<and> stdout (pipe s) = map iter [0..<Suc i]
            \<and> pulls s = delivered (fetched iter i))
       \<or> (task (pipe s) = Closing \<and> snd (iter i) \<noteq> None
            \<and> \<not> closed (stream (pipe s))
            \<and> stdout (pipe s) = map iter [0..<Suc i]
            \<and> pulls s = delivered (fetched iter i))
       \<or> (task (pipe s) = Finished \<and> snd (iter i) \<noteq> None
            \<and> closed (stream (pipe s))
            \<and> stdout (pipe s) = map iter [0..<Suc i]
            \<and> (\<exists>m. pulls s = delivered (fetched iter i) @ replicate m exhausted))))"

text \<open>
  Progress of a run of \<^verbatim>\<open>From\<close>: the pulls that returned, and one more once the
  producer has left its loop.
\<close>

fun phi :: "'v session \<Rightarrow> nat" where
  "phi s = length (pulls s) + (case task (pipe s) of Closing \<Rightarrow> 1 | Finished \<Rightarrow> 1 | _ \<Rightarrow> 0)"

text \<open>The number of results that carry no error: the emitters that came through.\<close>

definition arrived :: "'v pull list \<Rightarrow> nat" where
  "arrived rs = length (filter (\<lambda>r. snd r = None) rs)"

text \<open>
  An iterator over three items whose fourth call fails and returns a non-nil
  emitter beside its error.
\<close>

definition abc :: "nat \<Rightarrow> nat pull" where
  "abc k = (if k < 3 then (Some (Item k), None) else (Some (Item 99), Some (Upstream ''no more'')))"

section \<open>The Observable layer\<close>

text \<open>
  The file that declares \<^verbatim>\<open>Observable\<close>, its \<^verbatim>\<open>Subscribe\<close> with the dispatch loop,
  \<^verbatim>\<open>Subscription\<close> and the creation operators is not among the sources; only its
  test file is. This layer is therefore written from sections 3, 4.3, 4.4 and 7
  of the specification, on top of the event stream above.
\<close>

text \<open>
  Modelled from the spec: the Observer type (missing: package observer). It has
  three independent optional callback slots; a field says whether the slot is
  set. What a callback does is recorded as a call in the subscription.
\<close>

record observer =
  NextHandler :: bool
  ErrHandler :: bool
  DoneHandler :: bool

text \<open>
  Modelled from the spec: the callbacks \<^verbatim>\<open>onNext(value)\<close>, \<^verbatim>\<open>onError(err)\<close> and
  \<^verbatim>\<open>onDone()\<close> of an observer (missing: package handlers), as the calls made.
\<close>

datatype 'v call = OnNext 'v | OnError error | OnDone

text \<open>
  Modelled from the spec: the state machine of a subscription (missing: the
  Subscription type). \<open>Active\<close> goes to one of the terminal states \<open>Disposed\<close>,
  \<open>Completed\<close> and \<open>Errored\<close>. The specification has no case for a pulled nil
  interface value; a method call on it panics in Go, which is \<open>Crashed\<close>.
\<close>

datatype phase = Active | Disposed | Completed | Errored | Crashed

text \<open>
  Modelled from the spec: a subscription with its dispatch task (missing: the
  Subscription type and the goroutine that Subscribe starts): the state, the
  cancellation signal set by \<^verbatim>\<open>Dispose\<close>, the observer, the callback calls made so
  far, and the number of pulls that returned.
\<close>

record 'v subscription =
  phase :: phase
  cancelled :: bool
  watcher :: observer
  calls :: "'v call list"
  drawn :: nat

text \<open>
  Modelled from the spec: the Observable (missing: the Observable struct). It
  owns one event stream; \<open>loops\<close> are the dispatch tasks started on it.
\<close>

record 'v observable =
  source :: "'v pipe"
  loops :: "'v subscription list"

text \<open>
  Modelled from the spec: the subscription that Subscribe returns (missing: its
  constructor): live, not cancelled, nothing delivered.
\<close>

definition subscribed :: "observer \<Rightarrow> 'v subscription" where
  "subscribed w = \<lparr>phase = Active, cancelled = False, watcher = w, calls = [], drawn = 0\<rparr>"

text \<open>
  Modelled from the spec: \<^verbatim>\<open>Subscribe(observer) -> (Subscription, error)\<close> (missing:
  the method of Observable). An observer with no callback set at all fails with
  \<^verbatim>\<open>InvalidObserver\<close> and no task is started; otherwise a dispatch task is started
  and its subscription, here the index of the task, is returned with a nil error.
\<close>

definition Subscribe :: "'v observable \<Rightarrow> observer \<Rightarrow> 'v observable \<times> nat option \<times> error option" where
  "Subscribe ob w =
     (if \<not> NextHandler w \<and> \<not> ErrHandler w \<and> \<not> DoneHandler w
      then (ob, None, Some InvalidObserverError)
      else (ob\<lparr>loops := loops ob @ [subscribed w]\<rparr>, Some (length (loops ob)), None))"

text \<open>
  Modelled from the spec: \<^verbatim>\<open>Range(start, end)\<close> (missing: the creation operator).
  Its producer pushes \<open>start, start + 1, \<dots>, end - 1\<close> as value emitters and closes;
  with \<open>end \<le> start\<close> it closes at once. The specification leaves the buffer
  capacity of the channel open; it is the parameter \<open>c\<close>.
\<close>

definition Range_obs :: "nat \<Rightarrow> int \<Rightarrow> int \<Rightarrow> int observable" where
  "Range_obs c lo hi =
     \<lparr>source = \<lparr>task = Pushing (map (\<lambda>i. Some (Item i)) [lo..hi - 1]),
                 stream = make_chan c, stdout = []\<rparr>,
      loops = []\<rparr>"

text \<open>Observers and observables used as examples.\<close>

definition everything :: observer where
  "everything = \<lparr>NextHandler = True, ErrHandler = True, DoneHandler = True\<rparr>"

definition nothing :: observer where
  "nothing = \<lparr>NextHandler = False, ErrHandler = False, DoneHandler = False\<rparr>"

definition faulty :: "nat observable" where
  "faulty = \<lparr>source = New [Some (Item 1), Some (Fault (Upstream ''boom'')), Some (Item 3)],
             loops = []\<rparr>"

section \<open>Properties of Next and of the pushing producer\<close>

lemmas model_defs = New_def From_def start_def make_chan_def Next_def recv_def send_then_def
  chan_send_def close_then_def chan_close_def delivered_def exhausted_def

lemmas eval_defs = model_defs fetched_def abc_def eval_nat_numeral

lemma Next_buffered:
  "buf (stream p) = x # xs \<Longrightarrow> Next p = Some ((x, None), p\<lparr>stream := (stream p)\<lparr>buf := xs\<rparr>\<rparr>)"
  by (simp add: Next_def recv_def)

lemma Next_closed:
  "buf (stream p) = [] \<Longrightarrow> closed (stream p) \<Longrightarrow> Next p = Some (exhausted, p)"
  by (simp add: Next_def recv_def exhausted_def)

lemma Next_handoff:
  "buf (stream p) = [] \<Longrightarrow> \<not> closed (stream p) \<Longrightarrow> cap (stream p) = 0 \<Longrightarrow>
   offer (task p) = Some (e, t') \<Longrightarrow> Next p = Some ((e, None), p\<lparr>task := t'\<rparr>)"
  by (simp add: Next_def recv_def)

lemma Next_blocked:
  "buf (stream p) = [] \<Longrightarrow> \<not> closed (stream p) \<Longrightarrow>
   cap (stream p) \<noteq> 0 \<or> offer (task p) = None \<Longrightarrow> Next p = None"
  by (auto simp: Next_def recv_def)

lemma delivered_snoc: "delivered (xs @ [x]) = delivered xs @ [(x, None)]"
  by (simp add: delivered_def)

lemma push_invI1:
  "task (pipe s) = Pushing rest \<Longrightarrow> \<not> closed (stream (pipe s)) \<Longrightarrow> pulls s = delivered pre \<Longrightarrow>
   es = pre @ buf (stream (pipe s)) @ rest \<Longrightarrow> push_inv es s"
  unfolding push_inv_def by blast

lemma push_invI2:
  "task (pipe s) = Finished \<Longrightarrow> closed (stream (pipe s)) \<Longrightarrow> es = pre @ buf (stream (pipe s)) \<Longrightarrow>
   pulls s = delivered pre @ replicate k exhausted \<Longrightarrow> (0 < k \<Longrightarrow> buf (stream (pipe s)) = []) \<Longrightarrow>
   push_inv es s"
  unfolding push_inv_def by blast

lemma push_invE:
  assumes "push_inv es s"
  obtains (Busy) pre rest where "task (pipe s) = Pushing rest" "\<not> closed (stream (pipe s))"
      "pulls s = delivered pre" "es = pre @ buf (stream (pipe s)) @ rest"
  | (Over) pre k where "task (pipe s) = Finished" "closed (stream (pipe s))"
      "es = pre @ buf (stream (pipe s))" "pulls s = delivered pre @ replicate k exhausted"
      "0 < k \<Longrightarrow> buf (stream (pipe s)) = []"
  using assms unfolding push_inv_def by blast

lemma push_inv_producer: "push_inv es s \<Longrightarrow> push_inv es (step Producer s)"
  unfolding push_inv_def
  by (auto simp: send_then_def close_then_def chan_send_def chan_close_def
           split: list.splits)

lemma push_inv_consumer:
  assumes "push_inv es s"
  shows "push_inv es (step Consumer s)"
  using assms
proof (cases rule: push_invE)
  case (Busy pre rest)
  show ?thesis
  proof (cases "buf (stream (pipe s))")
    case (Cons x xs)
    with Busy show ?thesis
      by (intro push_invI1[where pre = "pre @ [x]" and rest = rest])
         (simp_all add: Next_buffered delivered_snoc)
  next
    case Nil
    show ?thesis
    proof (cases "cap (stream (pipe s)) = 0 \<and> rest \<noteq> []")
      case True
      then obtain e r where r: "rest = e # r" by (cases rest) auto
      with True Busy Nil have "Next (pipe s) = Some ((e, None), (pipe s)\<lparr>task := Pushing r\<rparr>)"
        by (intro Next_handoff) simp_all
      with Busy Nil r show ?thesis
        by (intro push_invI1[where pre = "pre @ [e]" and rest = r])
           (simp_all add: delivered_snoc)
    next
      case False
      with Busy have "cap (stream (pipe s)) \<noteq> 0 \<or> offer (task (pipe s)) = None"
        by (cases rest) auto
      with Busy Nil have "Next (pipe s) = None"
        by (intro Next_blocked)
      with assms show ?thesis by simp
    qed
  qed
next
  case (Over pre k)
  show ?thesis
  proof (cases "buf (stream (pipe s))")
    case (Cons x xs)
    with Over have "k = 0" by auto
    with Over Cons show ?thesis
      by (intro push_invI2[where pre = "pre @ [x]" and k = 0])
         (simp_all add: Next_buffered delivered_snoc)
  next
    case Nil
    with Over show ?thesis
      by (intro push_invI2[where pre = pre and k = "Suc k"])
         (simp_all add: Next_closed replicate_append_same)
  qed
qed

lemma push_inv_step: "push_inv es s \<Longrightarrow> push_inv es (step a s)"
  by (cases a) (simp_all only: push_inv_producer push_inv_consumer)

lemma push_inv_run: "push_inv es s \<Longrightarrow> push_inv es (run sched s)"
  by (induction sched arbitrary: s) (simp_all add: push_inv_step del: step.simps)

lemma run_append: "run (xs @ ys) s = run ys (run xs s)"
  by (induction xs arbitrary: s) simp_all

text \<open>In a round of producer then caller, the caller's pull always returns.\<close>

lemma push_round:
  assumes "push_inv es s"
  shows "length (pulls (step Consumer (step Producer s))) = Suc (length (pulls s))"
proof -
  let ?s = "step Producer s"
  have inv: "push_inv es ?s" using assms by (rule push_inv_producer)
  have same: "pulls ?s = pulls s" by simp
  have "\<exists>r p'. Next (pipe ?s) = Some (r, p')"
    using assms
  proof (cases rule: push_invE)
    case (Busy pre rest)
    show ?thesis
    proof (cases rest)
      case Nil
      with Busy have "closed (stream (pipe ?s))"
        by (simp add: close_then_def chan_close_def)
      then show ?thesis
        by (cases "buf (stream (pipe ?s))") (auto simp: Next_buffered Next_closed)
    next
      case (Cons e r)
      show ?thesis
      proof (cases "length (buf (stream (pipe s))) < cap (stream (pipe s))")
        case True
        with Busy Cons have "buf (stream (pipe ?s)) = buf (stream (pipe s)) @ [e]"
          by (simp add: send_then_def chan_send_def)
        then show ?thesis
          by (cases "buf (stream (pipe ?s))") (auto simp: Next_buffered)
      next
        case False
        with Busy Cons have eq: "pipe ?s = pipe s"
          by (simp add: send_then_def chan_send_def)
        show ?thesis
        proof (cases "buf (stream (pipe s))")
          case Nil
          with False have "cap (stream (pipe s)) = 0" by simp
          with Busy Cons Nil have "Next (pipe s) = Some ((e, None), (pipe s)\<lparr>task := Pushing r\<rparr>)"
            by (intro Next_handoff) simp_all
          with eq show ?thesis by simp
        next
          case (Cons x xs)
          with eq show ?thesis by (simp add: Next_buffered)
        qed
      qed
    qed
  next
    case (Over pre k)
    then have "pipe ?s = pipe s" by simp
    with Over show ?thesis
      by (cases "buf (stream (pipe s))") (auto simp: Next_buffered Next_closed)
  qed
  then obtain r p' where "Next (pipe ?s) = Some (r, p')" by blast
  then show ?thesis using same by simp
qed

lemma push_rounds:
  "push_inv es s \<Longrightarrow> length (pulls (run (rounds n) s)) = length (pulls s) + n"
proof (induction n arbitrary: s)
  case 0
  then show ?case by simp
next
  case (Suc n)
  let ?s = "step Consumer (step Producer s)"
  have "push_inv es ?s" using Suc.prems by (intro push_inv_step)
  from Suc.IH[OF this] push_round[OF Suc.prems] show ?case by simp
qed

lemma push_inv_pulls:
  assumes "push_inv es s"
  shows "pulls s = take (length (pulls s)) (delivered es @ replicate (length (pulls s)) exhausted)"
  using assms
proof (cases rule: push_invE)
  case (Busy pre rest)
  then show ?thesis by (simp add: delivered_def)
next
  case (Over pre k)
  show ?thesis
  proof (cases "k = 0")
    case True
    with Over show ?thesis by (simp add: delivered_def)
  next
    case False
    with Over have "es = pre" by simp
    with Over show ?thesis by (simp add: delivered_def)
  qed
qed

lemma push_inv_done:
  assumes "push_inv es s" "length es < length (pulls s)"
  shows "task (pipe s) = Finished \<and> closed (stream (pipe s)) \<and> buf (stream (pipe s)) = []"
  using assms(1)
proof (cases rule: push_invE)
  case (Busy pre rest)
  with assms(2) show ?thesis by (simp add: delivered_def)
next
  case (Over pre k)
  with assms(2) have "0 < k" by (cases k) (auto simp: delivered_def)
  with Over show ?thesis by simp
qed

lemma push_inv_init:
  "\<not> closed ch \<Longrightarrow> buf ch = [] \<Longrightarrow> push_inv es (start \<lparr>task = Pushing es, stream = ch, stdout = out\<rparr>)"
  by (intro push_invI1[where pre = "[]" and rest = es]) (simp_all add: start_def delivered_def)

lemma cap_send_then: "cap (stream (send_then e t p)) = cap (stream p)"
  by (simp add: send_then_def chan_send_def)

lemma cap_close_then: "cap (stream (close_then p)) = cap (stream p)"
  by (simp add: close_then_def chan_close_def)

lemma cap_advance: "cap (stream (advance p)) = cap (stream p)"
proof (cases "task p")
  case (Pushing es)
  then show ?thesis by (cases es) (simp_all add: cap_send_then cap_close_then)
next
  case (Pulling iter k)
  then show ?thesis by (cases "iter k") simp
qed (simp_all add: cap_send_then cap_close_then)

lemma cap_Next: "Next p = Some (r, p') \<Longrightarrow> cap (stream p') = cap (stream p)"
  by (auto simp: Next_def recv_def split: list.splits option.splits if_splits)

lemma cap_step: "cap (stream (pipe (step a s))) = cap (stream (pipe s))"
proof (cases a)
  case Producer
  then show ?thesis by (simp add: cap_advance del: advance.simps)
next
  case Consumer
  then show ?thesis by (cases "Next (pipe s)") (auto dest: cap_Next)
qed

lemma cap_run: "cap (stream (pipe (run sched s))) = cap (stream (pipe s))"
  by (induction sched arbitrary: s) (simp_all add: cap_step del: step.simps)

lemma new_producer:
  assumes "push_inv es s" "cap (stream (pipe s)) = length es"
  shows "todo (task (pipe (step Producer s))) = todo (task (pipe s)) - 1"
  using assms(1)
proof (cases rule: push_invE)
  case (Busy pre rest)
  show ?thesis
  proof (cases rest)
    case Nil
    with Busy show ?thesis by (simp add: close_then_def chan_close_def)
  next
    case (Cons e r)
    from Busy(4) have "length es = length (pre @ buf (stream (pipe s)) @ rest)" by (rule arg_cong)
    with Cons have "length es = length pre + length (buf (stream (pipe s))) + Suc (length r)"
      by simp
    with assms(2) have "length (buf (stream (pipe s))) < cap (stream (pipe s))" by simp
    with Busy Cons show ?thesis by (simp add: send_then_def chan_send_def)
  qed
next
  case (Over pre k)
  then show ?thesis by simp
qed

lemma new_consumer:
  assumes "0 < cap (stream (pipe s))"
  shows "task (pipe (step Consumer s)) = task (pipe s)"
proof (cases "buf (stream (pipe s))")
  case Nil
  show ?thesis
  proof (cases "closed (stream (pipe s))")
    case True
    with Nil show ?thesis by (simp add: Next_closed)
  next
    case False
    with Nil assms have "Next (pipe s) = None" by (intro Next_blocked) simp_all
    then show ?thesis by simp
  qed
next
  case (Cons x xs)
  then show ?thesis by (simp add: Next_buffered)
qed

lemma new_todo_run:
  "push_inv es s \<Longrightarrow> cap (stream (pipe s)) = length es \<Longrightarrow> es \<noteq> [] \<Longrightarrow>
   todo (task (pipe (run sched s))) = todo (task (pipe s)) - count_list sched Producer"
proof (induction sched arbitrary: s)
  case Nil
  then show ?case by simp
next
  case (Cons a sched)
  have inv: "push_inv es (step a s)" using Cons.prems(1) by (rule push_inv_step)
  have c: "cap (stream (pipe (step a s))) = length es" using Cons.prems(2) by (simp only: cap_step)
  have ih: "todo (task (pipe (run sched (step a s)))) = todo (task (pipe (step a s))) - count_list sched Producer"
    using Cons.IH[OF inv c Cons.prems(3)] .
  show ?case
  proof (cases a)
    case Producer
    with ih new_producer[OF Cons.prems(1,2)] show ?thesis by simp
  next
    case Consumer
    from Cons.prems(2,3) have "0 < cap (stream (pipe s))" by simp
    from new_consumer[OF this] ih Consumer show ?thesis by simp
  qed
qed

lemma new_init: "es \<noteq> [] \<Longrightarrow> push_inv es (start (New es))"
  unfolding New_def by (simp add: push_inv_init make_chan_def)

lemma push_inv_idle:
  assumes "push_inv es s" "todo (task (pipe s)) = 0"
  shows "task (pipe s) = Finished \<and> closed (stream (pipe s))"
  using assms(1)
proof (cases rule: push_invE)
  case (Busy pre rest)
  with assms(2) show ?thesis by simp
next
  case (Over pre k)
  then show ?thesis by simp
qed

lemma push_inv_closed:
  assumes "push_inv es s" "closed (stream (pipe s))"
  shows "\<exists>pre k. es = pre @ buf (stream (pipe s)) \<and> pulls s = delivered pre @ replicate k exhausted"
  using assms(1)
proof (cases rule: push_invE)
  case (Busy pre rest)
  with assms(2) show ?thesis by simp
next
  case (Over pre k)
  then show ?thesis by blast
qed

lemma idle_step: "task (pipe s) = NotSpawned \<Longrightarrow> buf (stream (pipe s)) = [] \<Longrightarrow>
  \<not> closed (stream (pipe s)) \<Longrightarrow> step a s = s"
  by (cases a) (simp_all add: Next_def recv_def)

lemma idle_run: "task (pipe s) = NotSpawned \<Longrightarrow> buf (stream (pipe s)) = [] \<Longrightarrow>
  \<not> closed (stream (pipe s)) \<Longrightarrow> run sched s = s"
  by (induction sched) (simp_all add: idle_step del: step.simps)


section \<open>New\<close>

text \<open>
  Claim C1, as amended. \<^verbatim>\<open>New\<close> starts its producer only when it is given at least
  one emitter. For a non-empty argument list and every interleaving of the
  producer with a caller of \<^verbatim>\<open>Next\<close>: the results of the pulls are an initial part
  of the argument emitters in argument order followed by end-of-stream results;
  when the channel is closed, every argument emitter has been pulled or waits in
  the buffer, in order; the channel is closed as soon as the producer has had one
  turn more than there are emitters; and from every reachable state, as many
  rounds of producer and caller as there are emitters plus one bring the pulls to
  all the emitters in order followed by the end of the stream. For the empty
  argument list no producer exists: the channel stays open and empty for ever and
  no pull returns.
\<close>

theorem New_stream:
  "(emitters \<noteq> [] \<longrightarrow>
      (\<forall>sched.
         (\<exists>n. pulls (run sched (start (New emitters)))
                = take n (delivered emitters @ replicate n exhausted))
       \<and> (closed (stream (pipe (run sched (start (New emitters))))) \<longrightarrow>
            (\<exists>pre k. emitters = pre @ buf (stream (pipe (run sched (start (New emitters)))))
                \<and> pulls (run sched (start (New emitters))) = delivered pre @ replicate k exhausted))
       \<and> (length emitters < count_list sched Producer \<longrightarrow>
            task (pipe (run sched (start (New emitters)))) = Finished
          \<and> closed (stream (pipe (run sched (start (New emitters))))))
       \<and> pulls (run (sched @ rounds (Suc (length emitters))) (start (New emitters)))
            = delivered emitters
              @ replicate (Suc (length (pulls (run sched (start (New emitters)))))) exhausted))
 \<and> (emitters = [] \<longrightarrow>
      task (New emitters) = NotSpawned
    \<and> (\<forall>sched. run sched (start (New emitters)) = start (New emitters)
           \<and> \<not> closed (stream (pipe (run sched (start (New emitters)))))
           \<and> pulls (run sched (start (New emitters))) = []))"
proof (intro conjI impI allI)
  fix sched
  assume ne: "emitters \<noteq> []"
  let ?s = "run sched (start (New emitters))"
  have inv: "push_inv emitters ?s" using ne by (intro push_inv_run new_init)
  from push_inv_pulls[OF inv]
  show "\<exists>n. pulls ?s = take n (delivered emitters @ replicate n exhausted)" ..
  show "\<exists>pre k. emitters = pre @ buf (stream (pipe ?s)) \<and> pulls ?s = delivered pre @ replicate k exhausted"
    if "closed (stream (pipe ?s))" using inv that by (rule push_inv_closed)
  have td: "todo (task (pipe ?s)) = Suc (length emitters) - count_list sched Producer"
    using new_todo_run[OF new_init[OF ne] _ ne, of sched] ne
    by (simp add: New_def start_def make_chan_def)
  {
    assume "length emitters < count_list sched Producer"
    with td have "todo (task (pipe ?s)) = 0" by simp
    with inv have *: "task (pipe ?s) = Finished \<and> closed (stream (pipe ?s))" by (rule push_inv_idle)
    from * show "task (pipe ?s) = Finished" ..
    from * show "closed (stream (pipe ?s))" ..
  }
  let ?t = "run (sched @ rounds (Suc (length emitters))) (start (New emitters))"
  have inv': "push_inv emitters ?t" using ne by (intro push_inv_run new_init)
  have len: "length (pulls ?t) = length (pulls ?s) + Suc (length emitters)"
    using push_rounds[OF inv] by (simp only: run_append)
  from push_inv_pulls[OF inv'] len
  show "pulls ?t = delivered emitters @ replicate (Suc (length (pulls ?s))) exhausted"
    by (simp add: delivered_def)
next
  assume "emitters = []"
  then show "task (New emitters) = NotSpawned" by (simp add: New_def)
next
  fix sched
  assume e: "emitters = []"
  then have r: "run sched (start (New emitters)) = start (New emitters)"
    by (intro idle_run) (simp_all add: New_def start_def make_chan_def)
  show "run sched (start (New emitters)) = start (New emitters)" by (rule r)
  show "\<not> closed (stream (pipe (run sched (start (New emitters)))))"
    unfolding r by (simp add: New_def start_def make_chan_def)
  show "pulls (run sched (start (New emitters))) = []"
    unfolding r by (simp add: start_def)
qed

theorem New_stream_witness:
  "[Some (Item (1::nat)), None] \<noteq> []
   \<and> pulls (run ([Consumer, Producer] @ rounds 3) (start (New [Some (Item (1::nat)), None])))
       = [(Some (Item 1), None), (None, None), (None, Some EndOfIteratorError)]
   \<and> closed (stream (pipe (run [Producer, Consumer, Producer, Producer]
         (start (New [Some (Item (1::nat)), None])))))
   \<and> run [Consumer, Producer] (start (New ([]::nat emitter option list))) = start (New [])"
proof -
  let ?es = "[Some (Item (1::nat)), None]"
  have ne: "?es \<noteq> []" by simp
  note T = New_stream[of ?es, THEN conjunct1, rule_format, OF ne]
  have a: "pulls (run ([Consumer, Producer] @ rounds 3) (start (New ?es)))
       = [(Some (Item 1), None), (None, None), (None, Some EndOfIteratorError)]"
    using T[of "[Consumer, Producer]", THEN conjunct2, THEN conjunct2, THEN conjunct2]
    by (simp add: model_defs eval_nat_numeral)
  have b: "closed (stream (pipe (run [Producer, Consumer, Producer, Producer] (start (New ?es)))))"
    using T[of "[Producer, Consumer, Producer, Producer]", THEN conjunct2, THEN conjunct2, THEN conjunct1]
    by simp
  have c: "run [Consumer, Producer] (start (New ([]::nat emitter option list))) = start (New [])"
    using New_stream[of "[]::nat emitter option list", THEN conjunct2, rule_format, OF refl]
    by blast
  from ne a b c show ?thesis by blast
qed

theorem New_empty_counterexample:
  "task (pipe (run (rounds 4) (start (New ([]::nat emitter option list))))) = NotSpawned
   \<and> closed (stream (pipe (run (rounds 4) (start (New ([]::nat emitter option list)))))) = False
   \<and> pulls (run (rounds 4) (start (New ([]::nat emitter option list)))) = []"
  by (simp add: model_defs eval_nat_numeral)

section \<open>From\<close>

lemma fetched_Suc: "fetched iter (Suc i) = fetched iter i @ [fst (iter i)]"
  by (simp add: fetched_def)

lemma length_fetched: "length (fetched iter i) = i"
  by (simp add: fetched_def)

lemma length_delivered: "length (delivered es) = length es"
  by (simp add: delivered_def)

lemma from_invE:
  assumes "from_inv iter s"
  obtains (Pull) i where "\<forall>j<i. snd (iter j) = None" "task (pipe s) = Pulling iter i"
      "\<not> closed (stream (pipe s))" "stdout (pipe s) = map iter [0..<i]"
      "pulls s = delivered (fetched iter i)"
  | (Hand) i where "\<forall>j<i. snd (iter j) = None" "task (pipe s) = Handing (fst (iter i)) iter (Suc i)"
      "snd (iter i) = None" "\<not> closed (stream (pipe s))" "stdout (pipe s) = map iter [0..<Suc i]"
      "pulls s = delivered (fetched iter i)"
  | (Close) i where "\<forall>j<i. snd (iter j) = None" "task (pipe s) = Closing" "snd (iter i) \<noteq> None"
      "\<not> closed (stream (pipe s))" "stdout (pipe s) = map iter [0..<Suc i]"
      "pulls s = delivered (fetched iter i)"
  | (Fin) i m where "\<forall>j<i. snd (iter j) = None" "task (pipe s) = Finished" "snd (iter i) \<noteq> None"
      "closed (stream (pipe s))" "stdout (pipe s) = map iter [0..<Suc i]"
      "pulls s = delivered (fetched iter i) @ replicate m exhausted"
  using assms unfolding from_inv_def by blast

lemma from_inv_chan: "from_inv iter s \<Longrightarrow> buf (stream (pipe s)) = [] \<and> cap (stream (pipe s)) = 0"
  unfolding from_inv_def by blast

lemma from_invI_Pull:
  "buf (stream (pipe s)) = [] \<Longrightarrow> cap (stream (pipe s)) = 0 \<Longrightarrow> \<forall>j<i. snd (iter j) = None \<Longrightarrow>
   task (pipe s) = Pulling iter i \<Longrightarrow> \<not> closed (stream (pipe s)) \<Longrightarrow>
   stdout (pipe s) = map iter [0..<i] \<Longrightarrow> pulls s = delivered (fetched iter i) \<Longrightarrow> from_inv iter s"
  unfolding from_inv_def by blast

lemma from_invI_Hand:
  "buf (stream (pipe s)) = [] \<Longrightarrow> cap (stream (pipe s)) = 0 \<Longrightarrow> \<forall>j<i. snd (iter j) = None \<Longrightarrow>
   task (pipe s) = Handing (fst (iter i)) iter (Suc i) \<Longrightarrow> snd (iter i) = None \<Longrightarrow>
   \<not> closed (stream (pipe s)) \<Longrightarrow> stdout (pipe s) = map iter [0..<Suc i] \<Longrightarrow>
   pulls s = delivered (fetched iter i) \<Longrightarrow> from_inv iter s"
  unfolding from_inv_def by blast

lemma from_invI_Close:
  "buf (stream (pipe s)) = [] \<Longrightarrow> cap (stream (pipe s)) = 0 \<Longrightarrow> \<forall>j<i. snd (iter j) = None \<Longrightarrow>
   task (pipe s) = Closing \<Longrightarrow> snd (iter i) \<noteq> None \<Longrightarrow>
   \<not> closed (stream (pipe s)) \<Longrightarrow> stdout (pipe s) = map iter [0..<Suc i] \<Longrightarrow>
   pulls s = delivered (fetched iter i) \<Longrightarrow> from_inv iter s"
  unfolding from_inv_def by blast

lemma from_invI_Fin:
  "buf (stream (pipe s)) = [] \<Longrightarrow> cap (stream (pipe s)) = 0 \<Longrightarrow> \<forall>j<i. snd (iter j) = None \<Longrightarrow>
   task (pipe s) = Finished \<Longrightarrow> snd (iter i) \<noteq> None \<Longrightarrow>
   closed (stream (pipe s)) \<Longrightarrow> stdout (pipe s) = map iter [0..<Suc i] \<Longrightarrow>
   pulls s = delivered (fetched iter i) @ replicate m exhausted \<Longrightarrow> from_inv iter s"
  unfolding from_inv_def by blast

lemma from_inv_producer:
  assumes "from_inv iter s"
  shows "from_inv iter (step Producer s)"
proof -
  note ch = from_inv_chan[OF assms]
  from assms show ?thesis
  proof (cases rule: from_invE)
    case (Pull i)
    obtain e err where it: "iter i = (e, err)" by (cases "iter i")
    show ?thesis
    proof (cases err)
      case None
      with Pull ch it show ?thesis
        by (intro from_invI_Hand[where i = i]) simp_all
    next
      case (Some a)
      with Pull ch it show ?thesis
        by (intro from_invI_Close[where i = i]) simp_all
    qed
  next
    case (Hand i)
    with ch have "step Producer s = s"
      by (simp add: send_then_def chan_send_def)
    with assms show ?thesis by simp
  next
    case (Close i)
    with ch show ?thesis
      by (intro from_invI_Fin[where i = i and m = 0]) (simp_all add: close_then_def chan_close_def)
  next
    case (Fin i m)
    then have "step Producer s = s" by simp
    with assms show ?thesis by simp
  qed
qed

lemma from_inv_consumer:
  assumes "from_inv iter s"
  shows "from_inv iter (step Consumer s)"
proof -
  note ch = from_inv_chan[OF assms]
  from assms show ?thesis
  proof (cases rule: from_invE)
    case (Pull i)
    with ch have "Next (pipe s) = None" by (intro Next_blocked) simp_all
    with assms show ?thesis by simp
  next
    case (Hand i)
    with ch have "Next (pipe s) = Some ((fst (iter i), None), (pipe s)\<lparr>task := Pulling iter (Suc i)\<rparr>)"
      by (intro Next_handoff) simp_all
    with Hand ch show ?thesis
      by (intro from_invI_Pull[where i = "Suc i"])
         (simp_all add: fetched_Suc delivered_snoc less_Suc_eq)
  next
    case (Close i)
    with ch have "Next (pipe s) = None" by (intro Next_blocked) simp_all
    with assms show ?thesis by simp
  next
    case (Fin i m)
    with ch have "Next (pipe s) = Some (exhausted, pipe s)" by (intro Next_closed) simp_all
    with Fin ch show ?thesis
      by (intro from_invI_Fin[where i = i and m = "Suc m"])
         (simp_all add: replicate_append_same)
  qed
qed

lemma from_inv_step: "from_inv iter s \<Longrightarrow> from_inv iter (step a s)"
  by (cases a) (simp_all only: from_inv_producer from_inv_consumer)

lemma from_inv_run: "from_inv iter s \<Longrightarrow> from_inv iter (run sched s)"
  by (induction sched arbitrary: s) (simp_all add: from_inv_step del: step.simps)

lemma from_init: "from_inv iter (start (From iter))"
  by (intro from_invI_Pull[where i = 0]) (simp_all add: model_defs fetched_def)

lemma from_round:
  assumes "from_inv iter s"
  shows "phi (step Consumer (step Producer s)) = Suc (phi s)"
proof -
  note ch = from_inv_chan[OF assms]
  let ?s = "step Producer s"
  have inv: "from_inv iter ?s" using assms by (rule from_inv_producer)
  note ch' = from_inv_chan[OF inv]
  from assms show ?thesis
  proof (cases rule: from_invE)
    case (Pull i)
    obtain e err where it: "iter i = (e, err)" by (cases "iter i")
    show ?thesis
    proof (cases err)
      case None
      with Pull it have t: "task (pipe ?s) = Handing e iter (Suc i)" by simp
      from Pull ch have c: "\<not> closed (stream (pipe ?s))" "buf (stream (pipe ?s)) = []"
        "cap (stream (pipe ?s)) = 0" using it by simp_all
      have "Next (pipe ?s) = Some ((e, None), (pipe ?s)\<lparr>task := Pulling iter (Suc i)\<rparr>)"
        using c t by (intro Next_handoff) simp_all
      with Pull show ?thesis by simp
    next
      case (Some a)
      with Pull it have t: "task (pipe ?s) = Closing" by simp
      from Pull ch have c: "\<not> closed (stream (pipe ?s))" "buf (stream (pipe ?s)) = []"
        using it by simp_all
      have "Next (pipe ?s) = None" using c t by (intro Next_blocked) simp_all
      with Pull t show ?thesis by simp
    qed
  next
    case (Hand i)
    with ch have same: "step Producer s = s" by (simp add: send_then_def chan_send_def)
    from Hand ch have "Next (pipe s) = Some ((fst (iter i), None), (pipe s)\<lparr>task := Pulling iter (Suc i)\<rparr>)"
      by (intro Next_handoff) simp_all
    with Hand show ?thesis unfolding same by simp
  next
    case (Close i)
    with ch have p: "pipe ?s = (pipe s)\<lparr>task := Finished, stream := (stream (pipe s))\<lparr>closed := True\<rparr>\<rparr>"
      by (simp add: close_then_def chan_close_def)
    with ch have "Next (pipe ?s) = Some (exhausted, pipe ?s)" by (intro Next_closed) simp_all
    with Close p show ?thesis by simp
  next
    case (Fin i m)
    then have same: "step Producer s = s" by simp
    from Fin ch have "Next (pipe s) = Some (exhausted, pipe s)" by (intro Next_closed) simp_all
    with Fin show ?thesis unfolding same by simp
  qed
qed

lemma from_rounds: "from_inv iter s \<Longrightarrow> phi (run (rounds n) s) = phi s + n"
proof (induction n arbitrary: s)
  case 0
  then show ?case by simp
next
  case (Suc n)
  let ?s = "step Consumer (step Producer s)"
  have "from_inv iter ?s" using Suc.prems by (intro from_inv_step)
  from Suc.IH[OF this] from_round[OF Suc.prems] show ?case by (simp del: phi.simps step.simps)
qed

lemma first_failure_unique:
  assumes "\<forall>j<k. snd (iter j) = None" "snd (iter k) \<noteq> None"
    "\<forall>j<i. snd (iter j) = None" "snd (iter i) \<noteq> None"
  shows "i = (k::nat)"
  using assms by (meson linorder_neqE_nat)

lemma from_inv_shape:
  assumes "from_inv iter s"
  shows "\<exists>i m. (\<forall>j<i. snd (iter j) = None)
           \<and> pulls s = delivered (fetched iter i) @ replicate m exhausted
           \<and> (0 < m \<or> closed (stream (pipe s)) \<longrightarrow>
                 snd (iter i) \<noteq> None \<and> closed (stream (pipe s)) \<and> task (pipe s) = Finished)"
  using assms
proof (cases rule: from_invE)
  case (Pull i)
  then show ?thesis by (intro exI[of _ i] exI[of _ 0]) simp
next
  case (Hand i)
  then show ?thesis by (intro exI[of _ i] exI[of _ 0]) simp
next
  case (Close i)
  then show ?thesis by (intro exI[of _ i] exI[of _ 0]) simp
next
  case (Fin i m)
  then show ?thesis by (intro exI[of _ i] exI[of _ m]) simp
qed

lemma from_inv_complete:
  assumes inv: "from_inv iter s" and ok: "\<forall>j<k. snd (iter j) = None" and bad: "snd (iter k) \<noteq> None"
    and big: "k + 2 \<le> phi s"
  shows "\<exists>m>0. pulls s = delivered (fetched iter k) @ replicate m exhausted
           \<and> closed (stream (pipe s)) \<and> task (pipe s) = Finished"
  using inv
proof (cases rule: from_invE)
  case (Pull i)
  have "i \<le> k" using Pull(1) bad by (meson not_le_imp_less)
  with Pull big show ?thesis by (simp add: length_delivered length_fetched)
next
  case (Hand i)
  have "i \<le> k" using Hand(1) bad by (meson not_le_imp_less)
  with Hand big show ?thesis by (simp add: length_delivered length_fetched)
next
  case (Close i)
  have "i = k" using ok bad Close(1,3) by (rule first_failure_unique)
  with Close big show ?thesis by (simp add: length_delivered length_fetched)
next
  case (Fin i m)
  have ik: "i = k" using ok bad Fin(1,3) by (rule first_failure_unique)
  with Fin big have "0 < m" by (simp add: length_delivered length_fetched)
  with Fin ik show ?thesis by blast
qed

lemma arrived_delivered: "arrived (delivered es) = length es"
  by (simp add: arrived_def delivered_def)

lemma arrived_append: "arrived (xs @ ys) = arrived xs + arrived ys"
  by (simp add: arrived_def)

lemma arrived_exhausted: "arrived (replicate m exhausted) = 0"
  by (simp add: arrived_def exhausted_def)

lemma arrived_ok: "\<forall>j<i. snd (iter j) = None \<Longrightarrow> arrived (map iter [0..<i]) = i"
  by (induction i) (simp_all add: arrived_def)

lemma arrived_single: "arrived [r] = (if snd r = None then 1 else 0)"
  by (simp add: arrived_def)

lemma from_inv_sources:
  assumes inv: "from_inv iter s" and bad: "snd (iter k) \<noteq> None"
  shows "buf (stream (pipe s)) = []
       \<and> (\<exists>i\<le>k. \<exists>m. (\<forall>j<i. snd (iter j) = None)
              \<and> pulls s = delivered (fetched iter i) @ replicate m exhausted)
       \<and> (\<forall>e t'. offer (task (pipe s)) = Some (e, t') \<longrightarrow>
              (\<exists>j<k. snd (iter j) = None \<and> e = fst (iter j)))"
proof -
  note ch = from_inv_chan[OF inv]
  have early: "i \<le> k" if "\<forall>j<i. snd (iter j) = None" for i
    using that bad by (meson not_le_imp_less)
  from from_inv_shape[OF inv] obtain i m where
    im: "\<forall>j<i. snd (iter j) = None" "pulls s = delivered (fetched iter i) @ replicate m exhausted"
    by blast
  from early[OF im(1)] im
  have mid: "\<exists>i\<le>k. \<exists>m. (\<forall>j<i. snd (iter j) = None)
              \<and> pulls s = delivered (fetched iter i) @ replicate m exhausted"
    by blast
  have off: "\<exists>j<k. snd (iter j) = None \<and> e = fst (iter j)"
    if o: "offer (task (pipe s)) = Some (e, t')" for e t'
    using inv
  proof (cases rule: from_invE)
    case (Pull i)
    with o show ?thesis by simp
  next
    case (Hand i)
    have "i \<le> k" using Hand(1) by (rule early)
    moreover have "i \<noteq> k" using Hand(3) bad by auto
    ultimately have "i < k" by simp
    with Hand o show ?thesis by auto
  next
    case (Close i)
    with o show ?thesis by simp
  next
    case (Fin i m)
    with o show ?thesis by simp
  qed
  from ch mid off show ?thesis by blast
qed

lemma from_inv_handoff:
  assumes inv: "from_inv iter s"
  shows "arrived (stdout (pipe s)) = arrived (pulls s) + (if offer (task (pipe s)) = None then 0 else 1)"
  using inv
proof (cases rule: from_invE)
  case (Pull i)
  then show ?thesis by (simp add: arrived_ok arrived_delivered length_fetched)
next
  case (Hand i)
  then have "\<forall>j<Suc i. snd (iter j) = None" by (simp add: less_Suc_eq)
  from arrived_ok[OF this] Hand show ?thesis
    by (simp add: arrived_delivered length_fetched)
next
  case (Close i)
  from arrived_ok[OF Close(1)] Close show ?thesis
    by (simp add: arrived_delivered length_fetched arrived_append arrived_single)
next
  case (Fin i m)
  from arrived_ok[OF Fin(1)] Fin show ?thesis
    by (simp add: arrived_delivered length_fetched arrived_append arrived_exhausted arrived_single)
qed

lemma new_alone:
  "length b + length rest \<le> c \<Longrightarrow>
   run (replicate (Suc (length rest)) Producer)
     \<lparr>pipe = \<lparr>task = Pushing rest, stream = \<lparr>buf = b, cap = c, closed = False\<rparr>, stdout = out\<rparr>,
      pulls = ps\<rparr>
   = \<lparr>pipe = \<lparr>task = Finished, stream = \<lparr>buf = b @ rest, cap = c, closed = True\<rparr>, stdout = out\<rparr>,
      pulls = ps\<rparr>"
proof (induction rest arbitrary: b)
  case Nil
  then show ?case by (simp add: close_then_def chan_close_def)
next
  case (Cons e rest)
  then have "length (b @ [e]) + length rest \<le> c" by simp
  from Cons.IH[OF this] Cons.prems show ?case
    by (simp add: send_then_def chan_send_def)
qed

text \<open>
  Claim C2. For every iterator and every interleaving of \<^verbatim>\<open>From\<close>'s producer with a
  caller of \<^verbatim>\<open>Next\<close>, the pulls return the emitters of the first \<open>i\<close> calls of the
  iterator, all of them successful, in call order, followed by end-of-stream
  results only; the end of the stream and the close are seen only when call \<open>i\<close>
  failed, so \<open>i\<close> is then the first failing call. When the iterator's first failing
  call is call \<open>k\<close>, then from every reachable state \<open>k + 2\<close> rounds of producer and
  caller bring the pulls to exactly the emitters of the calls before \<open>k\<close> followed
  by the end of the stream, with the channel closed. Every result carries either
  no error or the end-of-stream error: the iterator's own error is never
  forwarded.
\<close>

theorem From_stream:
  "(\<forall>sched. \<exists>i m.
       (\<forall>j<i. snd (iter j) = None)
     \<and> pulls (run sched (start (From iter))) = delivered (fetched iter i) @ replicate m exhausted
     \<and> (0 < m \<or> closed (stream (pipe (run sched (start (From iter))))) \<longrightarrow>
           snd (iter i) \<noteq> None
         \<and> closed (stream (pipe (run sched (start (From iter)))))
         \<and> task (pipe (run sched (start (From iter)))) = Finished))
 \<and> ((\<forall>j<k. snd (iter j) = None) \<and> snd (iter k) \<noteq> None \<longrightarrow>
       (\<forall>sched. \<exists>m>0.
           pulls (run (sched @ rounds (k + 2)) (start (From iter)))
             = delivered (fetched iter k) @ replicate m exhausted
         \<and> closed (stream (pipe (run (sched @ rounds (k + 2)) (start (From iter)))))
         \<and> task (pipe (run (sched @ rounds (k + 2)) (start (From iter)))) = Finished)
     \<and> pulls (run (rounds (k + 2)) (start (From iter)))
          = delivered (fetched iter k) @ [exhausted])"
proof (intro conjI allI impI)
  fix sched
  have "from_inv iter (run sched (start (From iter)))" by (intro from_inv_run from_init)
  then show "\<exists>i m. (\<forall>j<i. snd (iter j) = None)
     \<and> pulls (run sched (start (From iter))) = delivered (fetched iter i) @ replicate m exhausted
     \<and> (0 < m \<or> closed (stream (pipe (run sched (start (From iter))))) \<longrightarrow>
           snd (iter i) \<noteq> None
         \<and> closed (stream (pipe (run sched (start (From iter)))))
         \<and> task (pipe (run sched (start (From iter)))) = Finished)"
    by (rule from_inv_shape)
next
  fix sched
  assume h: "(\<forall>j<k. snd (iter j) = None) \<and> snd (iter k) \<noteq> None"
  let ?s = "run sched (start (From iter))"
  let ?t = "run (sched @ rounds (k + 2)) (start (From iter))"
  have inv: "from_inv iter ?s" by (intro from_inv_run from_init)
  have inv': "from_inv iter ?t" by (intro from_inv_run from_init)
  have "phi ?t = phi ?s + (k + 2)" using from_rounds[OF inv] by (simp only: run_append)
  then have "k + 2 \<le> phi ?t" by simp
  with inv' h show "\<exists>m>0. pulls ?t = delivered (fetched iter k) @ replicate m exhausted
      \<and> closed (stream (pipe ?t)) \<and> task (pipe ?t) = Finished"
    by (intro from_inv_complete) blast+
next
  assume h: "(\<forall>j<k. snd (iter j) = None) \<and> snd (iter k) \<noteq> None"
  let ?t = "run (rounds (k + 2)) (start (From iter))"
  have inv': "from_inv iter ?t" by (intro from_inv_run from_init)
  have ph: "phi ?t = k + 2" using from_rounds[OF from_init[of iter], of "k + 2"]
    by (simp add: model_defs)
  then have "k + 2 \<le> phi ?t" by simp
  with inv' h have "\<exists>m>0. pulls ?t = delivered (fetched iter k) @ replicate m exhausted
      \<and> closed (stream (pipe ?t)) \<and> task (pipe ?t) = Finished"
    by (intro from_inv_complete) blast+
  then obtain m where m: "0 < m" "pulls ?t = delivered (fetched iter k) @ replicate m exhausted"
    "task (pipe ?t) = Finished" by blast
  with ph have "m = 1" by (simp add: length_delivered length_fetched)
  with m show "pulls ?t = delivered (fetched iter k) @ [exhausted]" by simp
qed

theorem From_stream_witness:
  "snd (abc 0) = None \<and> snd (abc 1) = None \<and> snd (abc 2) = None
   \<and> snd (abc 3) = Some (Upstream ''no more'')
   \<and> pulls (run (rounds 5) (start (From abc)))
       = [(Some (Item 0), None), (Some (Item 1), None), (Some (Item 2), None),
          (None, Some EndOfIteratorError)]"
proof -
  have ok: "\<forall>j<3. snd (abc j) = None" by (simp add: abc_def)
  have bad: "snd (abc 3) \<noteq> None" by (simp add: abc_def)
  from From_stream[of abc 3, THEN conjunct2] ok bad
  have "pulls (run (rounds (3 + 2)) (start (From abc))) = delivered (fetched abc 3) @ [exhausted]"
    by blast
  then show ?thesis by (simp add: eval_defs)
qed

text \<open>
  Claim C10. When call \<open>k\<close> of the iterator returns a non-nil error, then in every
  reachable state of \<^verbatim>\<open>From\<close> the channel buffer is empty, the emitters the caller
  has pulled are those of the calls before some \<open>i \<le> k\<close>, all successful, and an
  emitter the producer offers in its send comes from a successful call before
  \<open>k\<close>: the emitter returned beside the error is in none of these places, whatever
  it is.
\<close>

theorem failed_pull_discarded:
  "snd (iter k) \<noteq> None \<longrightarrow>
     (\<forall>sched.
        buf (stream (pipe (run sched (start (From iter))))) = []
      \<and> (\<exists>i\<le>k. \<exists>m. (\<forall>j<i. snd (iter j) = None)
             \<and> pulls (run sched (start (From iter))) = delivered (fetched iter i) @ replicate m exhausted)
      \<and> (\<forall>e t'. offer (task (pipe (run sched (start (From iter))))) = Some (e, t') \<longrightarrow>
             (\<exists>j<k. snd (iter j) = None \<and> e = fst (iter j))))"
proof (intro impI allI)
  fix sched
  assume bad: "snd (iter k) \<noteq> None"
  have inv: "from_inv iter (run sched (start (From iter)))" by (intro from_inv_run from_init)
  from inv bad show "buf (stream (pipe (run sched (start (From iter))))) = []
      \<and> (\<exists>i\<le>k. \<exists>m. (\<forall>j<i. snd (iter j) = None)
             \<and> pulls (run sched (start (From iter))) = delivered (fetched iter i) @ replicate m exhausted)
      \<and> (\<forall>e t'. offer (task (pipe (run sched (start (From iter))))) = Some (e, t') \<longrightarrow>
             (\<exists>j<k. snd (iter j) = None \<and> e = fst (iter j)))"
    by (rule from_inv_sources)
qed

theorem failed_pull_discarded_witness:
  "abc 3 = (Some (Item 99), Some (Upstream ''no more''))
   \<and> buf (stream (pipe (run (rounds 6) (start (From abc))))) = []
   \<and> offer (task (pipe (run (rounds 6) (start (From abc))))) = None
   \<and> pulls (run (rounds 6) (start (From abc)))
       = [(Some (Item 0), None), (Some (Item 1), None), (Some (Item 2), None),
          (None, Some EndOfIteratorError), (None, Some EndOfIteratorError)]
   \<and> stdout (pipe (run (rounds 6) (start (From abc))))
       = [(Some (Item 0), None), (Some (Item 1), None), (Some (Item 2), None),
          (Some (Item 99), Some (Upstream ''no more''))]"
proof -
  have bad: "snd (abc 3) \<noteq> None" by (simp add: abc_def)
  from failed_pull_discarded[of abc 3, rule_format, OF bad, of "rounds 6"]
  have "buf (stream (pipe (run (rounds 6) (start (From abc))))) = []" by blast
  then show ?thesis by (simp add: eval_defs)
qed

section \<open>Buffer capacities\<close>

text \<open>
  Claim C9, as amended. The channel of \<^verbatim>\<open>New\<close> has as many buffer slots as there
  are emitter arguments. When at least one emitter is given, the producer that
  \<^verbatim>\<open>New\<close> starts, running alone, has pushed every emitter and closed the channel
  after one turn per emitter and one more, with no pull made. With no emitter
  argument \<^verbatim>\<open>New\<close> starts no producer: nothing is ever pushed and the channel is
  never closed. The channel of \<^verbatim>\<open>From\<close> has capacity zero: its buffer is empty in
  every reachable state, and every emitter obtained from the iterator has been
  received by the caller, except the one the producer is blocked sending.
\<close>

theorem buffer_capacity:
  "cap (stream (New emitters)) = length emitters
 \<and> (emitters \<noteq> [] \<longrightarrow>
      run (replicate (Suc (length emitters)) Producer) (start (New emitters))
      = \<lparr>pipe = \<lparr>task = Finished,
                 stream = \<lparr>buf = emitters, cap = length emitters, closed = True\<rparr>,
                 stdout = []\<rparr>,
         pulls = []\<rparr>)
 \<and> (emitters = [] \<longrightarrow>
      task (New emitters) = NotSpawned
    \<and> \<not> closed (stream (New emitters))
    \<and> (\<forall>sched. run sched (start (New emitters)) = start (New emitters)))
 \<and> cap (stream (From iter)) = 0
 \<and> (\<forall>sched.
       buf (stream (pipe (run sched (start (From iter))))) = []
     \<and> arrived (stdout (pipe (run sched (start (From iter)))))
         = arrived (pulls (run sched (start (From iter))))
           + (if offer (task (pipe (run sched (start (From iter))))) = None then 0 else 1))"
proof (intro conjI allI impI)
  show "cap (stream (New emitters)) = length emitters" by (simp add: model_defs)
  show "cap (stream (From iter)) = 0" by (simp add: model_defs)
next
  assume "emitters \<noteq> []"
  then show "run (replicate (Suc (length emitters)) Producer) (start (New emitters))
      = \<lparr>pipe = \<lparr>task = Finished,
                 stream = \<lparr>buf = emitters, cap = length emitters, closed = True\<rparr>,
                 stdout = []\<rparr>,
         pulls = []\<rparr>"
    using new_alone[of "[]" emitters "length emitters" "[]" "[]"]
    by (simp add: model_defs)
next
  assume "emitters = []"
  then show "task (New emitters) = NotSpawned" by (simp add: model_defs)
next
  assume "emitters = []"
  then show "\<not> closed (stream (New emitters))" by (simp add: model_defs)
next
  fix sched
  assume "emitters = []"
  then show "run sched (start (New emitters)) = start (New emitters)"
    by (intro idle_run) (simp_all add: model_defs)
next
  fix sched
  have inv: "from_inv iter (run sched (start (From iter)))" by (intro from_inv_run from_init)
  from from_inv_chan[OF inv] show "buf (stream (pipe (run sched (start (From iter))))) = []" ..
  from inv show "arrived (stdout (pipe (run sched (start (From iter)))))
         = arrived (pulls (run sched (start (From iter))))
           + (if offer (task (pipe (run sched (start (From iter))))) = None then 0 else 1)"
    by (rule from_inv_handoff)
qed

theorem buffer_capacity_witness:
  "run (replicate (Suc (length [Some (Item (7::nat)), None])) Producer)
       (start (New [Some (Item (7::nat)), None]))
     = \<lparr>pipe = \<lparr>task = Finished,
                stream = \<lparr>buf = [Some (Item 7), None], cap = 2, closed = True\<rparr>,
                stdout = []\<rparr>,
        pulls = []\<rparr>
   \<and> run [Producer, Producer, Consumer] (start (New ([] :: nat emitter option list)))
     = start (New [])
   \<and> arrived (stdout (pipe (run [Producer, Producer] (start (From abc))))) = 1
   \<and> arrived (pulls (run [Producer, Producer] (start (From abc)))) = 0"
proof -
  have ne: "[Some (Item (7::nat)), None] \<noteq> []" by simp
  from buffer_capacity[of "[Some (Item (7::nat)), None]" abc] ne
  have a: "run (replicate (Suc (length [Some (Item (7::nat)), None])) Producer)
       (start (New [Some (Item (7::nat)), None]))
     = \<lparr>pipe = \<lparr>task = Finished,
                stream = \<lparr>buf = [Some (Item 7), None], cap = length [Some (Item (7::nat)), None], closed = True\<rparr>,
                stdout = []\<rparr>,
        pulls = []\<rparr>" by blast
  from buffer_capacity[of "[] :: nat emitter option list" abc]
  have d: "run [Producer, Producer, Consumer] (start (New ([] :: nat emitter option list)))
     = start (New [])" by blast
  have b: "arrived (pulls (run [Producer, Producer] (start (From abc)))) = 0"
    by (simp add: eval_defs arrived_def)
  have c: "arrived (stdout (pipe (run [Producer, Producer] (start (From abc))))) = 1"
    by (simp add: eval_defs arrived_def)
  from a b c d show ?thesis by simp
qed

theorem buffer_capacity_counterexample:
  "run (replicate (Suc (length ([] :: nat emitter option list))) Producer)
       (start (New ([] :: nat emitter option list)))
     = \<lparr>pipe = \<lparr>task = NotSpawned,
                stream = \<lparr>buf = [], cap = 0, closed = False\<rparr>,
                stdout = []\<rparr>,
        pulls = []\<rparr>"
  by (simp add: model_defs)

section \<open>Next\<close>

text \<open>
  Claim C3, as amended. \<^verbatim>\<open>Next\<close> returns the emitter at the head of the stream, as
  it was pushed, with a nil error whenever one is available, from the buffer or
  from a producer waiting in its send on an unbuffered channel; this is a
  non-nil emitter whenever the pushed interface value was non-nil. It returns a
  nil emitter together with the end-of-stream error exactly when the stream is
  closed and drained, no other error is ever returned, and it blocks exactly
  when the stream is open and nothing is available.
\<close>

theorem Next_result:
  "(buf (stream p) = x # xs \<longrightarrow>
      Next p = Some ((x, None), p\<lparr>stream := (stream p)\<lparr>buf := xs\<rparr>\<rparr>))
 \<and> (buf (stream p) = [] \<and> \<not> closed (stream p) \<and> cap (stream p) = 0
      \<and> offer (task p) = Some (e, t') \<longrightarrow>
      Next p = Some ((e, None), p\<lparr>task := t'\<rparr>))
 \<and> (Next p = Some ((None, Some EndOfIteratorError), p)
      \<longleftrightarrow> buf (stream p) = [] \<and> closed (stream p))
 \<and> (\<forall>r p'. Next p = Some (r, p') \<longrightarrow>
        (snd r = None \<or> r = (None, Some EndOfIteratorError))
      \<and> (snd r = Some EndOfIteratorError \<longleftrightarrow> buf (stream p) = [] \<and> closed (stream p)))
 \<and> (Next p = None \<longleftrightarrow>
        buf (stream p) = [] \<and> \<not> closed (stream p)
      \<and> (cap (stream p) \<noteq> 0 \<or> offer (task p) = None))"
proof (intro conjI allI impI)
  show "Next p = Some ((x, None), p\<lparr>stream := (stream p)\<lparr>buf := xs\<rparr>\<rparr>)"
    if "buf (stream p) = x # xs" using that by (rule Next_buffered)
  show "Next p = Some ((e, None), p\<lparr>task := t'\<rparr>)"
    if "buf (stream p) = [] \<and> \<not> closed (stream p) \<and> cap (stream p) = 0
      \<and> offer (task p) = Some (e, t')" using that by (intro Next_handoff) simp_all
  show "Next p = Some ((None, Some EndOfIteratorError), p)
      \<longleftrightarrow> buf (stream p) = [] \<and> closed (stream p)"
    by (auto simp: Next_def recv_def split: list.splits option.splits)
  show "Next p = None \<longleftrightarrow>
        buf (stream p) = [] \<and> \<not> closed (stream p)
      \<and> (cap (stream p) \<noteq> 0 \<or> offer (task p) = None)"
    by (auto simp: Next_def recv_def split: list.splits option.splits)
next
  fix r p'
  assume n: "Next p = Some (r, p')"
  then show "snd r = None \<or> r = (None, Some EndOfIteratorError)"
    by (auto simp: Next_def recv_def split: list.splits option.splits if_splits)
  from n show "snd r = Some EndOfIteratorError \<longleftrightarrow> buf (stream p) = [] \<and> closed (stream p)"
    by (auto simp: Next_def recv_def split: list.splits option.splits if_splits)
qed

theorem Next_result_witness:
  "Next (advance (New [Some (Item (5::nat))]))
     = Some ((Some (Item 5), None),
             \<lparr>task = Pushing [], stream = \<lparr>buf = [], cap = 1, closed = False\<rparr>, stdout = []\<rparr>)
   \<and> Next (advance (From abc))
     = Some ((Some (Item 0), None),
             \<lparr>task = Pulling abc 1, stream = \<lparr>buf = [], cap = 0, closed = False\<rparr>,
              stdout = [(Some (Item 0), None)]\<rparr>)
   \<and> Next (From abc) = None
   \<and> Next (\<lparr>task = Finished, stream = \<lparr>buf = [], cap = 1, closed = True\<rparr>, stdout = []\<rparr> :: nat pipe)
     = Some ((None, Some EndOfIteratorError),
             \<lparr>task = Finished, stream = \<lparr>buf = [], cap = 1, closed = True\<rparr>, stdout = []\<rparr>)"
proof -
  let ?p = "advance (New [Some (Item (5::nat))])"
  let ?q = "advance (From abc)"
  let ?r = "\<lparr>task = Finished, stream = \<lparr>buf = [], cap = 1, closed = True\<rparr>, stdout = []\<rparr> :: nat pipe"
  have p: "buf (stream ?p) = [Some (Item 5)]" by (simp add: model_defs)
  from Next_result[of ?p "Some (Item 5)" "[]", THEN conjunct1] p
  have 1: "Next ?p = Some ((Some (Item 5), None), ?p\<lparr>stream := (stream ?p)\<lparr>buf := []\<rparr>\<rparr>)" by blast
  have q: "buf (stream ?q) = [] \<and> \<not> closed (stream ?q) \<and> cap (stream ?q) = 0
      \<and> offer (task ?q) = Some (Some (Item 0), Pulling abc 1)"
    by (simp add: eval_defs)
  from Next_result[of ?q _ _ "Some (Item 0)" "Pulling abc 1", THEN conjunct2, THEN conjunct1] q
  have 2: "Next ?q = Some ((Some (Item 0), None), ?q\<lparr>task := Pulling abc 1\<rparr>)" by blast
  have b: "buf (stream (From abc)) = [] \<and> \<not> closed (stream (From abc))
      \<and> (cap (stream (From abc)) \<noteq> 0 \<or> offer (task (From abc)) = None)"
    by (simp add: eval_defs)
  from Next_result[of "From abc", THEN conjunct2, THEN conjunct2, THEN conjunct2, THEN conjunct2] b
  have 3: "Next (From abc) = None" by blast
  have r: "buf (stream ?r) = [] \<and> closed (stream ?r)" by simp
  from Next_result[of ?r, THEN conjunct2, THEN conjunct2, THEN conjunct1] r
  have 4: "Next ?r = Some ((None, Some EndOfIteratorError), ?r)" by blast
  have e1: "?p\<lparr>stream := (stream ?p)\<lparr>buf := []\<rparr>\<rparr>
      = \<lparr>task = Pushing [], stream = \<lparr>buf = [], cap = 1, closed = False\<rparr>, stdout = []\<rparr>"
    by (simp add: model_defs)
  have e2: "?q\<lparr>task := Pulling abc 1\<rparr>
      = \<lparr>task = Pulling abc 1, stream = \<lparr>buf = [], cap = 0, closed = False\<rparr>,
         stdout = [(Some (Item 0), None)]\<rparr>"
    by (simp add: eval_defs)
  from 1 2 3 4 show ?thesis unfolding e1 e2 by blast
qed

theorem Next_nil_counterexample:
  "buf (stream (advance (New [None :: nat emitter option]))) = [None]
   \<and> closed (stream (advance (New [None :: nat emitter option]))) = False
   \<and> Next (advance (New [None :: nat emitter option]))
     = Some ((None, None),
             \<lparr>task = Pushing [], stream = \<lparr>buf = [], cap = 1, closed = False\<rparr>, stdout = []\<rparr>)"
  by (simp add: model_defs)

section \<open>Subscribe\<close>

text \<open>
  Claim C5. For every observable, Subscribe with an observer that has no
  callback slot set returns the InvalidObserver error, no subscription, and
  leaves the observable as it was, with no dispatch task added; with an observer
  that has at least one callback set it returns a nil error and a subscription,
  the index of the live dispatch task it has added.
\<close>

theorem Subscribe_validation:
  "(\<not> NextHandler w \<and> \<not> ErrHandler w \<and> \<not> DoneHandler w \<longrightarrow>
      Subscribe ob w = (ob, None, Some InvalidObserverError))
 \<and> (NextHandler w \<or> ErrHandler w \<or> DoneHandler w \<longrightarrow>
      Subscribe ob w = (ob\<lparr>loops := loops ob @ [subscribed w]\<rparr>, Some (length (loops ob)), None)
    \<and> phase (subscribed w :: 'v subscription) = Active
    \<and> calls (subscribed w :: 'v subscription) = [])"
  by (auto simp: Subscribe_def subscribed_def)

theorem Subscribe_validation_witness:
  "Subscribe faulty nothing = (faulty, None, Some InvalidObserverError)
   \<and> Subscribe faulty everything
       = (faulty\<lparr>loops := loops faulty @ [subscribed everything]\<rparr>, Some (length (loops faulty)), None)
   \<and> loops faulty = []"
proof -
  have a: "\<not> NextHandler nothing \<and> \<not> ErrHandler nothing \<and> \<not> DoneHandler nothing"
    by (simp add: nothing_def)
  have b: "NextHandler everything \<or> ErrHandler everything \<or> DoneHandler everything"
    by (simp add: everything_def)
  have l: "loops faulty = []" by (simp add: faulty_def)
  from Subscribe_validation[of nothing faulty] a
  have 1: "Subscribe faulty nothing = (faulty, None, Some InvalidObserverError)" by blast
  from Subscribe_validation[of everything faulty] b
  have 2: "Subscribe faulty everything
       = (faulty\<lparr>loops := loops faulty @ [subscribed everything]\<rparr>, Some (length (loops faulty)), None)"
    by blast
  from 1 2 l show ?thesis by blast
qed

section \<open>Range\<close>

lemma push_complete:
  assumes "push_inv es s"
  shows "pulls (run (rounds (Suc (length es))) s) = delivered es @ replicate (Suc (length (pulls s))) exhausted
       \<and> closed (stream (pipe (run (rounds (Suc (length es))) s)))"
proof -
  let ?t = "run (rounds (Suc (length es))) s"
  have inv: "push_inv es ?t" using assms by (rule push_inv_run)
  have len: "length (pulls ?t) = length (pulls s) + Suc (length es)"
    using assms by (rule push_rounds)
  from push_inv_pulls[OF inv] len
  have "pulls ?t = delivered es @ replicate (Suc (length (pulls s))) exhausted"
    by (simp add: delivered_def)
  moreover from len have "length es < length (pulls ?t)" by simp
  with inv have "closed (stream (pipe ?t))" by (simp add: push_inv_done)
  ultimately show ?thesis by simp
qed

lemma Range_inv: "push_inv (map (\<lambda>i. Some (Item i)) [lo..hi - 1]) (start (source (Range_obs c lo hi)))"
  unfolding Range_obs_def by (simp add: push_inv_init make_chan_def)

lemma length_Range: "length [lo..hi - 1] = nat (hi - lo)"
  by simp

text \<open>
  Claim C6. For all integers \<open>lo\<close> and \<open>hi\<close> and every buffer capacity, in every
  interleaving of the producer of \<open>Range lo hi\<close> with a pulling caller the pulls
  return an initial part of the values \<open>lo, lo + 1, \<dots>, hi - 1\<close> in this order,
  followed by end-of-stream results only, and from every reachable state
  \<open>hi - lo + 1\<close> rounds of producer and caller deliver all of them and leave the
  channel closed. When \<open>lo < hi\<close>, the \<open>i\<close>-th pull returns the value \<open>lo + i\<close> for
  every \<open>i < hi - lo\<close> and the pull after them the end of the stream. When
  \<open>hi \<le> lo\<close>, no pull ever returns a value and the producer's first turn closes
  the empty channel.
\<close>

theorem Range_emits:
  "(\<forall>sched. \<exists>n. pulls (run sched (start (source (Range_obs c lo hi))))
        = take n (delivered (map (\<lambda>i. Some (Item i)) [lo..hi - 1]) @ replicate n exhausted))
 \<and> (\<forall>sched.
        pulls (run (sched @ rounds (Suc (nat (hi - lo)))) (start (source (Range_obs c lo hi))))
          = delivered (map (\<lambda>i. Some (Item i)) [lo..hi - 1])
            @ replicate (Suc (length (pulls (run sched (start (source (Range_obs c lo hi))))))) exhausted
      \<and> closed (stream (pipe (run (sched @ rounds (Suc (nat (hi - lo))))
            (start (source (Range_obs c lo hi)))))))
 \<and> (lo < hi \<longrightarrow>
        length (pulls (run (rounds (Suc (nat (hi - lo)))) (start (source (Range_obs c lo hi)))))
          = Suc (nat (hi - lo))
      \<and> (\<forall>i<nat (hi - lo).
            pulls (run (rounds (Suc (nat (hi - lo)))) (start (source (Range_obs c lo hi)))) ! i
              = (Some (Item (lo + int i)), None))
      \<and> pulls (run (rounds (Suc (nat (hi - lo)))) (start (source (Range_obs c lo hi)))) ! nat (hi - lo)
          = exhausted)
 \<and> (hi \<le> lo \<longrightarrow>
        (\<forall>sched. \<exists>n. pulls (run sched (start (source (Range_obs c lo hi)))) = replicate n exhausted)
      \<and> closed (stream (advance (source (Range_obs c lo hi))))
      \<and> buf (stream (advance (source (Range_obs c lo hi)))) = [])"
proof -
  let ?es = "map (\<lambda>i. Some (Item i)) [lo..hi - 1]"
  let ?s0 = "start (source (Range_obs c lo hi))"
  have len: "length ?es = nat (hi - lo)" by simp
  have inv: "push_inv ?es (run sched ?s0)" for sched
    by (intro push_inv_run Range_inv)
  have safe: "\<exists>n. pulls (run sched ?s0) = take n (delivered ?es @ replicate n exhausted)" for sched
    using push_inv_pulls[OF inv[of sched]] ..
  have live: "pulls (run (sched @ rounds (Suc (nat (hi - lo)))) ?s0)
          = delivered ?es @ replicate (Suc (length (pulls (run sched ?s0)))) exhausted
      \<and> closed (stream (pipe (run (sched @ rounds (Suc (nat (hi - lo)))) ?s0)))" for sched
    using push_complete[OF inv[of sched]] unfolding len by (simp only: run_append)
  have whole: "pulls (run (rounds (Suc (nat (hi - lo)))) ?s0) = delivered ?es @ [exhausted]"
    using live[of "[]"] by (simp add: start_def)
  have up: "lo < hi \<longrightarrow>
        length (pulls (run (rounds (Suc (nat (hi - lo)))) ?s0)) = Suc (nat (hi - lo))
      \<and> (\<forall>i<nat (hi - lo).
            pulls (run (rounds (Suc (nat (hi - lo)))) ?s0) ! i = (Some (Item (lo + int i)), None))
      \<and> pulls (run (rounds (Suc (nat (hi - lo)))) ?s0) ! nat (hi - lo) = exhausted"
  proof (intro impI conjI allI)
    show "length (pulls (run (rounds (Suc (nat (hi - lo)))) ?s0)) = Suc (nat (hi - lo))"
      unfolding whole by (simp add: delivered_def)
    show "pulls (run (rounds (Suc (nat (hi - lo)))) ?s0) ! nat (hi - lo) = exhausted"
      unfolding whole by (simp add: delivered_def nth_append)
    fix i assume "i < nat (hi - lo)"
    then show "pulls (run (rounds (Suc (nat (hi - lo)))) ?s0) ! i = (Some (Item (lo + int i)), None)"
      unfolding whole by (simp add: delivered_def nth_append)
  qed
  have down: "hi \<le> lo \<longrightarrow>
        (\<forall>sched. \<exists>n. pulls (run sched ?s0) = replicate n exhausted)
      \<and> closed (stream (advance (source (Range_obs c lo hi))))
      \<and> buf (stream (advance (source (Range_obs c lo hi)))) = []"
  proof (intro impI conjI allI)
    assume e: "hi \<le> lo"
    then have em: "?es = []" by simp
    show "\<exists>n. pulls (run sched ?s0) = replicate n exhausted" for sched
    proof -
      from safe[of sched] obtain n where
        "pulls (run sched ?s0) = take n (delivered ?es @ replicate n exhausted)" ..
      then have "pulls (run sched ?s0) = replicate n exhausted"
        unfolding em by (simp add: delivered_def)
      then show ?thesis ..
    qed
    from e show "closed (stream (advance (source (Range_obs c lo hi))))"
      by (simp add: Range_obs_def make_chan_def close_then_def chan_close_def)
    from e show "buf (stream (advance (source (Range_obs c lo hi)))) = []"
      by (simp add: Range_obs_def make_chan_def close_then_def chan_close_def)
  qed
  from safe live up down show ?thesis by blast
qed

theorem Range_emits_witness:
  "(1::int) < 5
   \<and> pulls (run (rounds 5) (start (source (Range_obs 0 1 5))))
       = [(Some (Item 1), None), (Some (Item 2), None), (Some (Item 3), None),
          (Some (Item 4), None), (None, Some EndOfIteratorError)]
   \<and> (5::int) \<le> 5
   \<and> closed (stream (advance (source (Range_obs 0 5 5))))
   \<and> pulls (run (rounds 1) (start (source (Range_obs 0 5 5)))) = [(None, Some EndOfIteratorError)]"
proof -
  have a: "(1::int) < 5" and b: "(5::int) \<le> 5" by simp_all
  have e1: "Suc (nat (5 - 1 :: int)) = 5" "Suc (nat (5 - 5 :: int)) = 1" by simp_all
  have e2: "[1 .. 5 - 1 :: int] = [1, 2, 3, 4]" "[5 .. 5 - 1 :: int] = []" by code_simp+
  have e3: "length (pulls (run [] (start p))) = 0" for p :: "int pipe" by (simp add: start_def)
  from Range_emits[of 0 1 5, THEN conjunct2, THEN conjunct1, THEN spec, of "[]", THEN conjunct1]
  have 1: "pulls (run (rounds 5) (start (source (Range_obs 0 1 5))))
       = [(Some (Item 1), None), (Some (Item 2), None), (Some (Item 3), None),
          (Some (Item 4), None), (None, Some EndOfIteratorError)]"
    unfolding e1 e2 e3 by (simp add: delivered_def exhausted_def)
  from Range_emits[of 0 5 5, THEN conjunct2, THEN conjunct2, THEN conjunct2] b
  have 2: "closed (stream (advance (source (Range_obs 0 5 5))))" by blast
  from Range_emits[of 0 5 5, THEN conjunct2, THEN conjunct1, THEN spec, of "[]", THEN conjunct1]
  have 3: "pulls (run (rounds 1) (start (source (Range_obs 0 5 5)))) = [(None, Some EndOfIteratorError)]"
    unfolding e1 e2 e3 by (simp add: delivered_def exhausted_def)
  from a b 1 2 3 show ?thesis by blast
qed

end
